theory Spec2Isabelle
  imports Main "HOL-Library.Word"
begin

unbundle bit_operations_syntax

section \<open>The frontmatter scanner of lobre/swap\<close>

text \<open>
  The scanner (the lexer source file with the item types \<open>itemFrontmatterTOML\<close>,
  \<open>itemFrontmatterYAML\<close>, \<open>itemFrontmatterJSON\<close>, \<open>itemMarkdown\<close>) splits a byte
  buffer into an optional frontmatter item and one content item. The Go code keeps a
  cursor (\<open>start\<close>, \<open>pos\<close>, \<open>width\<close>) in a struct and sends items over a channel
  from a goroutine; here the struct is a record, each method is a function from the
  record to the updated record, and the channel is the list of what has been sent, in
  order.

  Go's \<open>int\<close> is 64 bits wide. Every cursor value of the scanner lies between 0 and
  the length of the input and the brace counter between 0 and the number of characters
  read, so no operation wraps and the fields are modelled as \<open>int\<close>.

  A slice expression with bounds out of range makes the goroutine panic. Every
  operation that slices returns an \<open>option\<close>, and \<open>None\<close> stands for that panic.
\<close>

subsection \<open>Bytes, runes and the standard library's UTF-8 decoder\<close>

type_synonym byte = "8 word"
type_synonym rune = int

definition eof :: rune where
  "eof = -1"

definition RuneError :: rune where
  "RuneError = 0xFFFD"

text \<open>
  \<open>utf8.DecodeRune\<close> of Go's standard library: the first UTF-8 encoding in \<open>p\<close> and
  its width in bytes; \<open>(RuneError, 0)\<close> for the empty slice and \<open>(RuneError, 1)\<close>
  for an encoding that is invalid, too short, overlong, a surrogate or out of range.
  The conditions on the first byte are the library's table \<open>first\<close>, \<open>lo\<close> and
  \<open>hi\<close> are its \<open>acceptRanges\<close> for the second byte.
\<close>

fun DecodeRune :: "byte list \<Rightarrow> rune \<times> int" where
  "DecodeRune [] = (RuneError, 0)"
| "DecodeRune (p0 # ps) =
    (if p0 < 0x80 then (uint p0, 1)
     else if p0 < 0xC2 \<or> 0xF4 < p0 then (RuneError, 1)
     else
       let sz = (if p0 < 0xE0 then 2 else if p0 < 0xF0 then 3 else (4::nat));
           lo = (if p0 = 0xE0 then 0xA0 else if p0 = 0xF0 then 0x90 else 0x80);
           hi = (if p0 = 0xED then 0x9F else if p0 = 0xF4 then 0x8F else 0xBF)
       in if length (p0 # ps) < sz then (RuneError, 1)
          else
            let b1 = ps ! 0
            in if b1 < lo \<or> hi < b1 then (RuneError, 1)
               else if sz \<le> 2 then
                 (push_bit 6 (uint (p0 AND 0x1F)) OR uint (b1 AND 0x3F), 2)
               else
                 let b2 = ps ! 1
                 in if b2 < 0x80 \<or> 0xBF < b2 then (RuneError, 1)
                    else if sz \<le> 3 then
                      (push_bit 12 (uint (p0 AND 0x0F)) OR push_bit 6 (uint (b1 AND 0x3F))
                         OR uint (b2 AND 0x3F), 3)
                    else
                      let b3 = ps ! 2
                      in if b3 < 0x80 \<or> 0xBF < b3 then (RuneError, 1)
                         else
                           (push_bit 18 (uint (p0 AND 0x07))
                              OR push_bit 12 (uint (b1 AND 0x3F))
                              OR push_bit 6 (uint (b2 AND 0x3F))
                              OR uint (b3 AND 0x3F), 4))"

text \<open>A Go string literal converted to \<open>[]byte\<close> (all literals of the scanner are ASCII).\<close>

definition bytes :: "string \<Rightarrow> byte list" where
  "bytes s = map of_char s"

text \<open>
  The slice expression \<open>s[lo:hi]\<close>, which panics when its bounds are out of range.
  Go lets \<open>hi\<close> run up to the capacity of \<open>s\<close>; the model is stricter and panics
  beyond the length already, so a run that does not panic here does not panic in Go.
\<close>

definition slice :: "byte list \<Rightarrow> int \<Rightarrow> int \<Rightarrow> byte list option" where
  "slice s lo hi =
     (if 0 \<le> lo \<and> lo \<le> hi \<and> hi \<le> int (length s)
      then Some (take (nat (hi - lo)) (drop (nat lo) s))
      else None)"

text \<open>\<open>bytes.HasPrefix\<close> of the standard library.\<close>

definition HasPrefix :: "byte list \<Rightarrow> byte list \<Rightarrow> bool" where
  "HasPrefix s prefix = (length prefix \<le> length s \<and> take (length prefix) s = prefix)"

subsection \<open>Items and the scanner state\<close>

datatype itemType =
    itemError
  | itemFrontmatterTOML
  | itemFrontmatterYAML
  | itemFrontmatterJSON
  | itemMarkdown
  | itemEOF

record item =
  typ' :: itemType
  val :: "byte list"

text \<open>
  What the scanner has done with the input so far, in order: an item sent on the
  channel, or a pending span dropped by \<open>ignore\<close>. The dropped spans are a history
  that the Go code does not keep and that no operation reads; they are recorded so
  that the fate of every input byte can be stated.
\<close>

datatype event = Sent item | Dropped "byte list"

record lexer =
  input :: "byte list"
  start :: int
  pos :: int
  width :: int
  trace :: "event list"

text \<open>The items received by the consumer of the channel.\<close>

fun sent :: "event list \<Rightarrow> item list" where
  "sent [] = []"
| "sent (Sent i # es) = i # sent es"
| "sent (Dropped bs # es) = sent es"

definition items :: "lexer \<Rightarrow> item list" where
  "items l = sent (trace l)"

text \<open>The states of the machine; the Go code represents them by the functions themselves,
  and the \<open>nil\<close> state by which \<open>run\<close> stops is \<open>None\<close>.\<close>

datatype stateFunc =
    StStart
  | StFrontmatterTOML
  | StFrontmatterYAML
  | StFrontmatterJSON
  | StMarkdown
  | StDone

subsection \<open>Primitive operations\<close>

definition emit :: "itemType \<Rightarrow> lexer \<Rightarrow> lexer option" where
  "emit t l =
     (case slice (input l) (start l) (pos l) of
        None \<Rightarrow> None
      | Some v \<Rightarrow>
          Some (l\<lparr>trace := trace l @ [Sent \<lparr>typ' = t, val = v\<rparr>], start := pos l\<rparr>))"

text \<open>\<open>errorf\<close> is only called with a format that has no verb and with no argument,
  so the message is the format; it returns the \<open>nil\<close> state.\<close>

definition errorf :: "string \<Rightarrow> lexer \<Rightarrow> stateFunc option \<times> lexer" where
  "errorf format l =
     (None, l\<lparr>trace := trace l @ [Sent \<lparr>typ' = itemError, val = bytes format\<rparr>]\<rparr>)"

definition nextRune :: "lexer \<Rightarrow> (rune \<times> lexer) option" where
  "nextRune l =
     (if pos l \<ge> int (length (input l)) then Some (eof, l\<lparr>width := 0\<rparr>)
      else
        case slice (input l) (pos l) (int (length (input l))) of
          None \<Rightarrow> None
        | Some p \<Rightarrow>
            let (r, w) = DecodeRune p
            in Some (r, l\<lparr>width := w, pos := pos l + w\<rparr>))"

definition backup :: "lexer \<Rightarrow> lexer" where
  "backup l = l\<lparr>pos := pos l - width l\<rparr>"

definition peek :: "lexer \<Rightarrow> (rune \<times> lexer) option" where
  "peek l =
     (case nextRune l of
        None \<Rightarrow> None
      | Some (r, l') \<Rightarrow> Some (r, backup l'))"

text \<open>The pending span that \<open>ignore\<close> drops, for the history only.\<close>

definition pending :: "lexer \<Rightarrow> byte list" where
  "pending l = take (nat (pos l - start l)) (drop (nat (start l)) (input l))"

definition ignore :: "lexer \<Rightarrow> lexer" where
  "ignore l = l\<lparr>start := pos l, trace := trace l @ [Dropped (pending l)]\<rparr>"

text \<open>The loop of \<open>consumeCRLF\<close> over the runes still to be tried.\<close>

fun consumeCRLF_loop :: "rune list \<Rightarrow> bool \<Rightarrow> lexer \<Rightarrow> (bool \<times> lexer) option" where
  "consumeCRLF_loop [] consumed l = Some (consumed, l)"
| "consumeCRLF_loop (r # rs) consumed l =
     (case nextRune l of
        None \<Rightarrow> None
      | Some (r', l') \<Rightarrow>
          if r' \<noteq> r then consumeCRLF_loop rs consumed (backup l')
          else consumeCRLF_loop rs True l')"

definition consumeCRLF :: "lexer \<Rightarrow> (bool \<times> lexer) option" where
  "consumeCRLF l = consumeCRLF_loop [0x0D, 0x0A] False l"

definition hasPrefix :: "byte list \<Rightarrow> lexer \<Rightarrow> bool option" where
  "hasPrefix prefix l =
     (case slice (input l) (pos l) (int (length (input l))) of
        None \<Rightarrow> None
      | Some s \<Rightarrow> Some (HasPrefix s prefix))"

definition isEndOfLine :: "rune \<Rightarrow> bool" where
  "isEndOfLine r = (r = 0x0D \<or> r = 0x0A)"


subsection \<open>Facts about the decoder and the cursor needed for termination\<close>

lemma DecodeRune_width:
  "p \<noteq> [] \<Longrightarrow> 1 \<le> snd (DecodeRune p) \<and> snd (DecodeRune p) \<le> int (length p)"
  by (cases p) (auto simp: Let_def Suc_le_eq)

lemma DecodeRune_nonneg: "0 \<le> fst (DecodeRune p)"
  by (cases p) (auto simp: Let_def RuneError_def)

text \<open>The decoder yields an ASCII rune only for an ASCII byte: a longer encoding
  decodes to at least \<open>0x80\<close>, the overlong forms being rejected.\<close>

lemma uint_and_mask5: "uint (p AND (0x1F::byte)) = uint p mod 32"
proof -
  have "uint (p AND (0x1F::byte)) = uint p AND mask 5"
    by (simp add: uint_and mask_eq_exp_minus_1)
  also have "\<dots> = uint p mod 32"
    by (simp add: take_bit_eq_mod flip: take_bit_eq_mask)
  finally show ?thesis .
qed

lemma uint_and_mask4: "uint (p AND (0x0F::byte)) = uint p mod 16"
proof -
  have "uint (p AND (0x0F::byte)) = uint p AND mask 4"
    by (simp add: uint_and mask_eq_exp_minus_1)
  also have "\<dots> = uint p mod 16"
    by (simp add: take_bit_eq_mod flip: take_bit_eq_mask)
  finally show ?thesis .
qed

lemma uint_and_mask3: "uint (p AND (0x07::byte)) = uint p mod 8"
proof -
  have "uint (p AND (0x07::byte)) = uint p AND mask 3"
    by (simp add: uint_and mask_eq_exp_minus_1)
  also have "\<dots> = uint p mod 8"
    by (simp add: take_bit_eq_mod flip: take_bit_eq_mask)
  finally show ?thesis .
qed

lemma uint_and_mask6: "uint (p AND (0x3F::byte)) = uint p mod 64"
proof -
  have "uint (p AND (0x3F::byte)) = uint p AND mask 6"
    by (simp add: uint_and mask_eq_exp_minus_1)
  also have "\<dots> = uint p mod 64"
    by (simp add: take_bit_eq_mod flip: take_bit_eq_mask)
  finally show ?thesis .
qed

lemma or_ge_128: "128 \<le> x \<Longrightarrow> 0 \<le> y \<Longrightarrow> 128 \<le> x OR (y::int)"
  using or_greater_eq [of y x] by simp

lemma lead2:
  fixes p0 :: byte
  assumes "\<not> p0 < 0xC2" "p0 < 0xE0"
  shows "128 \<le> push_bit 6 (uint (p0 AND 0x1F))"
proof -
  from assms have "194 \<le> uint p0" "uint p0 < 224" by (simp_all add: word_less_def)
  then have "2 \<le> uint p0 mod 32" by presburger
  then show ?thesis by (simp add: uint_and_mask5 push_bit_eq_mult)
qed

lemma lead3:
  fixes p0 :: byte
  assumes "\<not> p0 < 0xE0" "p0 \<noteq> 0xE0" "p0 < 0xF0"
  shows "128 \<le> push_bit 12 (uint (p0 AND 0x0F))"
proof -
  from assms(2) have "uint p0 \<noteq> uint (0xE0::byte)"
    by (simp only: word_uint_eq_iff not_False_eq_True)
  then have "uint p0 \<noteq> 224" by simp
  with assms have "225 \<le> uint p0" "uint p0 < 240" by (simp_all add: word_less_def)
  then have "1 \<le> uint p0 mod 16" by presburger
  then show ?thesis by (simp add: uint_and_mask4 push_bit_eq_mult)
qed

lemma lead4:
  fixes p0 :: byte
  assumes "\<not> p0 < 0xF0" "p0 \<noteq> 0xF0" "\<not> 0xF4 < p0"
  shows "128 \<le> push_bit 18 (uint (p0 AND 0x07))"
proof -
  from assms(2) have "uint p0 \<noteq> uint (0xF0::byte)"
    by (simp only: word_uint_eq_iff not_False_eq_True)
  then have "uint p0 \<noteq> 240" by simp
  with assms have "241 \<le> uint p0" "uint p0 \<le> 244" by (simp_all add: word_less_def)
  then have "1 \<le> uint p0 mod 8" by presburger
  then show ?thesis by (simp add: uint_and_mask3 push_bit_eq_mult)
qed

lemma second3:
  fixes b1 :: byte
  assumes "\<not> b1 < 0xA0" "\<not> 0xBF < b1"
  shows "128 \<le> push_bit 6 (uint (b1 AND 0x3F))"
proof -
  from assms have "160 \<le> uint b1" "uint b1 \<le> 191" by (simp_all add: word_less_def)
  then have "32 \<le> uint b1 mod 64" by presburger
  then show ?thesis by (simp add: uint_and_mask6 push_bit_eq_mult)
qed

lemma second4:
  fixes b1 :: byte
  assumes "\<not> b1 < 0x90" "\<not> 0xBF < b1"
  shows "128 \<le> push_bit 12 (uint (b1 AND 0x3F))"
proof -
  from assms have "144 \<le> uint b1" "uint b1 \<le> 191" by (simp_all add: word_less_def)
  then have "16 \<le> uint b1 mod 64" by presburger
  then show ?thesis by (simp add: uint_and_mask6 push_bit_eq_mult)
qed

lemma DecodeRune_multibyte:
  assumes "\<not> p0 < 0x80"
  shows "0x80 \<le> fst (DecodeRune (p0 # ps))"
  using assms
  by (auto simp: Let_def RuneError_def lead2 lead3 lead4 second3 second4 intro!: or_ge_128)

declare DecodeRune.simps(2) [simp del]

lemma DecodeRune_ascii:
  assumes "fst (DecodeRune p) < 0x80"
  shows "\<exists>b ps. p = b # ps \<and> b < 0x80 \<and> DecodeRune p = (uint b, 1)"
proof (cases p)
  case Nil
  with assms show ?thesis by (simp add: RuneError_def)
next
  case (Cons b ps)
  with assms DecodeRune_multibyte [of b ps] have "b < 0x80"
    by (cases "b < 0x80") simp_all
  with Cons show ?thesis by (simp add: DecodeRune.simps(2))
qed

lemma slice_to_end:
  "slice s lo (int (length s)) = Some p \<Longrightarrow> 0 \<le> lo \<and> lo \<le> int (length s) \<and> p = drop (nat lo) s"
  by (auto simp: slice_def split: if_splits)

lemma nextRune_advance:
  assumes "nextRune l = Some (r, l')" and "r \<noteq> eof"
  shows "input l' = input l \<and> start l' = start l \<and> trace l' = trace l
         \<and> 0 \<le> pos l \<and> pos l < pos l' \<and> pos l' \<le> int (length (input l))
         \<and> width l' = pos l' - pos l"
proof -
  from assms have lt: "pos l < int (length (input l))"
    by (auto simp: nextRune_def split: if_splits)
  with assms obtain p where p: "slice (input l) (pos l) (int (length (input l))) = Some p"
    and l': "l' = l\<lparr>width := snd (DecodeRune p), pos := pos l + snd (DecodeRune p)\<rparr>"
    by (auto simp: nextRune_def split: option.splits prod.splits)
  from slice_to_end [OF p] have nn: "0 \<le> pos l" and pd: "p = drop (nat (pos l)) (input l)"
    by simp_all
  from lt nn pd have ne: "p \<noteq> []" and len: "int (length p) = int (length (input l)) - pos l"
    by auto
  from DecodeRune_width [OF ne] len l' nn show ?thesis
    by simp
qed


subsection \<open>The state functions\<close>

definition lexStart :: "lexer \<Rightarrow> (stateFunc option \<times> lexer) option" where
  "lexStart l =
     (case peek l of
        None \<Rightarrow> None
      | Some (r, l') \<Rightarrow>
          Some (if r = 0x2B then Some StFrontmatterTOML
                else if r = 0x2D then Some StFrontmatterYAML
                else if r = 0x7B then Some StFrontmatterJSON
                else Some StMarkdown, l'))"

text \<open>
  \<open>lexFrontmatterTOML\<close> and \<open>lexFrontmatterYAML\<close> are the same code up to the fence
  character, the fence, the item type and the two messages, which are the parameters
  here. First the loop \<open>for i := 0; i < 3; i++\<close> over the opening fence, with the
  number of iterations left: \<open>False\<close> when a rune is not the fence character.
\<close>

fun lexDelimiter :: "rune \<Rightarrow> nat \<Rightarrow> lexer \<Rightarrow> (bool \<times> lexer) option" where
  "lexDelimiter c 0 l = Some (True, l)"
| "lexDelimiter c (Suc n) l =
     (case nextRune l of
        None \<Rightarrow> None
      | Some (r, l') \<Rightarrow> if r \<noteq> c then Some (False, l') else lexDelimiter c n l')"

text \<open>The body of the \<open>if\<close> that has found the closing fence, up to \<open>break\<close> and
  the \<open>return lexMarkdown\<close> behind the loop.\<close>

definition lexFrontmatter_close :: "itemType \<Rightarrow> lexer \<Rightarrow> (stateFunc option \<times> lexer) option" where
  "lexFrontmatter_close t l =
     (case emit t l of
        None \<Rightarrow> None
      | Some l1 \<Rightarrow>
          (case consumeCRLF (l1\<lparr>pos := pos l1 + 3\<rparr>) of
             None \<Rightarrow> None
           | Some (consumed, l2) \<Rightarrow> Some (Some StMarkdown, ignore l2)))"

text \<open>The search for the closing fence, \<open>for { r := l.next() ... }\<close>.\<close>

function lexFrontmatter_loop ::
  "byte list \<Rightarrow> itemType \<Rightarrow> string \<Rightarrow> lexer \<Rightarrow> (stateFunc option \<times> lexer) option" where
  "lexFrontmatter_loop fence t msg l =
     (case nextRune l of
        None \<Rightarrow> None
      | Some (r, l') \<Rightarrow>
          if r = eof then Some (errorf msg l')
          else if isEndOfLine r then
            (case hasPrefix fence l' of
               None \<Rightarrow> None
             | Some found \<Rightarrow>
                 if found then lexFrontmatter_close t l'
                 else lexFrontmatter_loop fence t msg l')
          else lexFrontmatter_loop fence t msg l')"
  by pat_completeness auto
termination
  by (relation "measure (\<lambda>(fence, t, msg, l). nat (int (length (input l)) - pos l))")
     (auto dest: nextRune_advance)

definition lexFrontmatter ::
  "rune \<Rightarrow> byte list \<Rightarrow> itemType \<Rightarrow> string \<Rightarrow> string \<Rightarrow> lexer
   \<Rightarrow> (stateFunc option \<times> lexer) option" where
  "lexFrontmatter c fence t invalid msg l =
     (case lexDelimiter c 3 l of
        None \<Rightarrow> None
      | Some (ok, l1) \<Rightarrow>
          if \<not> ok then Some (errorf invalid l1)
          else
            (case consumeCRLF l1 of
               None \<Rightarrow> None
             | Some (consumed, l2) \<Rightarrow> lexFrontmatter_loop fence t msg (ignore l2)))"

definition lexFrontmatterTOML :: "lexer \<Rightarrow> (stateFunc option \<times> lexer) option" where
  "lexFrontmatterTOML =
     lexFrontmatter 0x2B (bytes ''+++'') itemFrontmatterTOML
       ''invalid TOML delimiter'' ''EOF looking for end TOML front matter delimiter''"

definition lexFrontmatterYAML :: "lexer \<Rightarrow> (stateFunc option \<times> lexer) option" where
  "lexFrontmatterYAML =
     lexFrontmatter 0x2D (bytes ''---'') itemFrontmatterYAML
       ''invalid YAML delimiter'' ''EOF looking for end YAML front matter delimiter''"

text \<open>The \<open>switch\<close> of \<open>lexFrontmatterJSON\<close> on a rune that is not \<open>eof\<close>: the new
  \<open>inQuote\<close>, \<open>level\<close> and scanner.\<close>

definition lexJSON_switch ::
  "rune \<Rightarrow> bool \<Rightarrow> int \<Rightarrow> lexer \<Rightarrow> (bool \<times> int \<times> lexer) option" where
  "lexJSON_switch r inQuote level l =
     (if r = 0x7B then Some (inQuote, if \<not> inQuote then level + 1 else level, l)
      else if r = 0x7D then Some (inQuote, if \<not> inQuote then level - 1 else level, l)
      else if r = 0x22 then Some (\<not> inQuote, level, l)
      else if r = 0x5C then
        (case nextRune l of
           None \<Rightarrow> None
         | Some (r', l') \<Rightarrow> Some (inQuote, level, l'))
      else Some (inQuote, level, l))"

lemma nextRune_eof:
  assumes "nextRune l = Some (r, l')" and "r = eof"
  shows "l' = l\<lparr>width := 0\<rparr> \<and> int (length (input l)) \<le> pos l"
proof (cases "int (length (input l)) \<le> pos l")
  case True
  with assms show ?thesis by (simp add: nextRune_def)
next
  case False
  with assms obtain p w where "DecodeRune p = (r, w)"
    by (auto simp: nextRune_def split: option.splits prod.splits)
  then have "r = fst (DecodeRune p)" by simp
  with DecodeRune_nonneg [of p] assms(2) show ?thesis by (simp add: eof_def)
qed

lemma nextRune_mono:
  "nextRune l = Some (r, l') \<Longrightarrow> input l' = input l \<and> pos l \<le> pos l'"
  by (cases "r = eof") (auto dest: nextRune_advance nextRune_eof)

lemma lexJSON_switch_mono:
  "lexJSON_switch r q lv l = Some (q', lv', l') \<Longrightarrow> input l' = input l \<and> pos l \<le> pos l'"
  by (auto simp: lexJSON_switch_def split: if_splits option.splits dest: nextRune_mono)

text \<open>
  The loop of \<open>lexFrontmatterJSON\<close>. It is left in two ways: by
  \<open>return l.errorf(...)\<close>, which ends the state function with the value \<open>Inl\<close>
  carries, or by \<open>break\<close> when \<open>level == 0\<close>, with the scanner in \<open>Inr\<close>.
\<close>

function lexFrontmatterJSON_loop ::
  "bool \<Rightarrow> int \<Rightarrow> lexer \<Rightarrow> ((stateFunc option \<times> lexer) + lexer) option" where
  "lexFrontmatterJSON_loop inQuote level l =
     (case nextRune l of
        None \<Rightarrow> None
      | Some (r, l1) \<Rightarrow>
          if r = eof then Some (Inl (errorf ''unexpected EOF parsing JSON front matter'' l1))
          else
            (case lexJSON_switch r inQuote level l1 of
               None \<Rightarrow> None
             | Some (inQuote', level', l2) \<Rightarrow>
                 if level' = 0 then Some (Inr l2)
                 else lexFrontmatterJSON_loop inQuote' level' l2))"
  by pat_completeness auto
termination
proof (relation "measure (\<lambda>(q, lv, l). nat (int (length (input l)) - pos l))", goal_cases)
  case 1
  show ?case by simp
next
  case (2 inQuote level l x2 r l1 x2a inQuote' x2b level' l2)
  from 2 have a: "nextRune l = Some (r, l1)" and b: "r \<noteq> eof"
    and c: "lexJSON_switch r inQuote level l1 = Some (inQuote', level', l2)"
    by simp_all
  from nextRune_advance [OF a b] lexJSON_switch_mono [OF c] show ?case
    by simp
qed

definition lexFrontmatterJSON :: "lexer \<Rightarrow> (stateFunc option \<times> lexer) option" where
  "lexFrontmatterJSON l =
     (case lexFrontmatterJSON_loop False 0 l of
        None \<Rightarrow> None
      | Some (Inl ret) \<Rightarrow> Some ret
      | Some (Inr l1) \<Rightarrow>
          (case consumeCRLF l1 of
             None \<Rightarrow> None
           | Some (consumed, l2) \<Rightarrow>
               (case emit itemFrontmatterJSON l2 of
                  None \<Rightarrow> None
                | Some l3 \<Rightarrow> Some (Some StMarkdown, l3))))"

function lexMarkdown :: "lexer \<Rightarrow> (stateFunc option \<times> lexer) option" where
  "lexMarkdown l =
     (case nextRune l of
        None \<Rightarrow> None
      | Some (r, l') \<Rightarrow>
          if r = eof then
            (case emit itemMarkdown l' of
               None \<Rightarrow> None
             | Some l'' \<Rightarrow> Some (Some StDone, l''))
          else lexMarkdown l')"
  by pat_completeness auto
termination
  by (relation "measure (\<lambda>l. nat (int (length (input l)) - pos l))")
     (auto dest: nextRune_advance)

definition lexDone :: "lexer \<Rightarrow> (stateFunc option \<times> lexer) option" where
  "lexDone l =
     (case emit itemEOF l of
        None \<Rightarrow> None
      | Some l' \<Rightarrow> Some (None, l'))"

text \<open>Calling a state: \<open>state(l)\<close> in \<open>run\<close>.\<close>

fun call :: "stateFunc \<Rightarrow> lexer \<Rightarrow> (stateFunc option \<times> lexer) option" where
  "call StStart l = lexStart l"
| "call StFrontmatterTOML l = lexFrontmatterTOML l"
| "call StFrontmatterYAML l = lexFrontmatterYAML l"
| "call StFrontmatterJSON l = lexFrontmatterJSON l"
| "call StMarkdown l = lexMarkdown l"
| "call StDone l = lexDone l"





declare lexFrontmatter_loop.simps [simp del]
declare lexFrontmatterJSON_loop.simps [simp del]
declare lexMarkdown.simps [simp del]


lemma lexFrontmatter_loop_state:
  "lexFrontmatter_loop fence t msg l = Some (st, l') \<Longrightarrow> st = None \<or> st = Some StMarkdown"
proof (induction fence t msg l rule: lexFrontmatter_loop.induct)
  case (1 fence t msg l)
  from "1.prems" "1.IH" show ?case
    by (subst (asm) lexFrontmatter_loop.simps)
       (auto simp: errorf_def lexFrontmatter_close_def
             split: option.splits if_splits)
qed

lemma lexFrontmatterJSON_loop_state:
  "lexFrontmatterJSON_loop q lv l = Some (Inl (st, l')) \<Longrightarrow> st = None"
proof (induction q lv l rule: lexFrontmatterJSON_loop.induct)
  case (1 q lv l)
  from "1.prems" "1.IH" show ?case
    by (subst (asm) lexFrontmatterJSON_loop.simps)
       (auto simp: errorf_def split: option.splits if_splits)
qed

lemma lexMarkdown_state:
  "lexMarkdown l = Some (st, l') \<Longrightarrow> st = Some StDone"
proof (induction l rule: lexMarkdown.induct)
  case (1 l)
  from "1.prems" "1.IH" show ?case
    by (subst (asm) lexMarkdown.simps)
       (auto split: option.splits if_splits)
qed


subsection \<open>The run of the machine\<close>

text \<open>The states that can follow a state are fewer at every step; this orders them.\<close>

fun rank :: "stateFunc option \<Rightarrow> nat" where
  "rank None = 0"
| "rank (Some StDone) = 1"
| "rank (Some StMarkdown) = 2"
| "rank (Some StFrontmatterTOML) = 3"
| "rank (Some StFrontmatterYAML) = 3"
| "rank (Some StFrontmatterJSON) = 3"
| "rank (Some StStart) = 4"

lemma lexFrontmatter_state:
  assumes "lexFrontmatter c fence t invalid msg l = Some (st, l')"
  shows "st = None \<or> st = Some StMarkdown"
proof -
  from assms obtain ok l1 where d: "lexDelimiter c 3 l = Some (ok, l1)"
    by (auto simp: lexFrontmatter_def split: option.splits)
  show ?thesis
  proof (cases ok)
    case False
    with assms d show ?thesis by (simp add: lexFrontmatter_def errorf_def)
  next
    case True
    with assms d obtain l2 where "lexFrontmatter_loop fence t msg l2 = Some (st, l')"
      by (auto simp: lexFrontmatter_def split: option.splits)
    then show ?thesis by (rule lexFrontmatter_loop_state)
  qed
qed

lemma call_rank:
  assumes "call st l = Some (st', l')"
  shows "rank st' < rank (Some st)"
proof (cases st)
  case StStart
  with assms show ?thesis
    by (auto simp: lexStart_def split: option.splits if_splits)
next
  case StFrontmatterTOML
  with assms have "st' = None \<or> st' = Some StMarkdown"
    by (auto simp: lexFrontmatterTOML_def dest: lexFrontmatter_state)
  with StFrontmatterTOML show ?thesis by auto
next
  case StFrontmatterYAML
  with assms have "st' = None \<or> st' = Some StMarkdown"
    by (auto simp: lexFrontmatterYAML_def dest: lexFrontmatter_state)
  with StFrontmatterYAML show ?thesis by auto
next
  case StFrontmatterJSON
  with assms have "st' = None \<or> st' = Some StMarkdown"
    by (auto simp: lexFrontmatterJSON_def split: option.splits sum.splits
             dest: lexFrontmatterJSON_loop_state)
  with StFrontmatterJSON show ?thesis by auto
next
  case StMarkdown
  with assms have "st' = Some StDone"
    by (auto dest: lexMarkdown_state)
  with StMarkdown show ?thesis by auto
next
  case StDone
  with assms show ?thesis
    by (auto simp: lexDone_def split: option.splits)
qed

text \<open>The loop of \<open>run\<close>, \<open>for state := lexStart; state != nil; { state = state(l) }\<close>;
  the channel is closed when it ends.\<close>

function run_loop :: "stateFunc option \<Rightarrow> lexer \<Rightarrow> lexer option" where
  "run_loop None l = Some l"
| "run_loop (Some state) l =
     (case call state l of
        None \<Rightarrow> None
      | Some (state', l') \<Rightarrow> run_loop state' l')"
  by pat_completeness auto
termination
  by (relation "measure (\<lambda>(st, l). rank st)") (auto dest: call_rank)

definition run :: "lexer \<Rightarrow> lexer option" where
  "run l = run_loop (Some StStart) l"

text \<open>\<open>lex\<close> builds the scanner and starts \<open>run\<close>; its value here is the scanner when
  \<open>run\<close> has returned, whose items are what the channel has delivered.\<close>

definition lex :: "byte list \<Rightarrow> lexer option" where
  "lex inp = run \<lparr>input = inp, start = 0, pos = 0, width = 0, trace = []\<rparr>"

text \<open>The sequence of items that a consumer reading the channel to its end receives.\<close>

definition scan :: "byte list \<Rightarrow> item list option" where
  "scan inp = map_option items (lex inp)"

declare run_loop.simps [simp del]


section \<open>Properties of the operations\<close>

subsection \<open>The cursor invariant\<close>

text \<open>The invariant of the cursor, \<open>0 \<le> start \<le> pos \<le> len(input)\<close>.\<close>

definition cursor_ok :: "lexer \<Rightarrow> bool" where
  "cursor_ok l = (0 \<le> start l \<and> start l \<le> pos l \<and> pos l \<le> int (length (input l)))"

text \<open>The input from the read position on, \<open>l.input[l.pos:]\<close>.\<close>

definition rest :: "lexer \<Rightarrow> byte list" where
  "rest l = drop (nat (pos l)) (input l)"

lemma rest_Nil: "cursor_ok l \<Longrightarrow> rest l = [] \<longleftrightarrow> pos l = int (length (input l))"
  by (auto simp: cursor_ok_def rest_def)

lemma length_rest: "cursor_ok l \<Longrightarrow> int (length (rest l)) = int (length (input l)) - pos l"
  by (auto simp: cursor_ok_def rest_def)

lemma nextRune_cursor:
  assumes "cursor_ok l"
  shows "nextRune l =
           Some (if rest l = [] then eof else fst (DecodeRune (rest l)),
                 l\<lparr>width := snd (DecodeRune (rest l)),
                   pos := pos l + snd (DecodeRune (rest l))\<rparr>)"
proof (cases "rest l = []")
  case True
  with assms rest_Nil [OF assms] show ?thesis
    by (simp add: nextRune_def)
next
  case False
  with assms rest_Nil [OF assms] have "pos l < int (length (input l))" "0 \<le> pos l"
    by (auto simp: cursor_ok_def)
  with False show ?thesis
    by (simp add: nextRune_def slice_def rest_def split: prod.splits)
qed

lemma width_bounds:
  assumes "cursor_ok l"
  shows "0 \<le> snd (DecodeRune (rest l))"
    and "pos l + snd (DecodeRune (rest l)) \<le> int (length (input l))"
    and "rest l \<noteq> [] \<Longrightarrow> 1 \<le> snd (DecodeRune (rest l))"
proof -
  show "0 \<le> snd (DecodeRune (rest l))"
    using DecodeRune_width [of "rest l"] by (cases "rest l = []") auto
  show "pos l + snd (DecodeRune (rest l)) \<le> int (length (input l))"
    using DecodeRune_width [of "rest l"] length_rest [OF assms] assms
    by (cases "rest l = []") (auto simp: cursor_ok_def)
  show "rest l \<noteq> [] \<Longrightarrow> 1 \<le> snd (DecodeRune (rest l))"
    using DecodeRune_width [of "rest l"] by simp
qed

lemma cursor_ok_next:
  assumes "cursor_ok l" and "nextRune l = Some (r, l')"
  shows "cursor_ok l'" and "cursor_ok (backup l')" and "input l' = input l"
    and "start l' = start l" and "trace l' = trace l" and "pos (backup l') = pos l"
  using assms width_bounds [OF assms(1)]
  by (auto simp: nextRune_cursor cursor_ok_def backup_def)

lemma peek_cursor:
  assumes "cursor_ok l"
  shows "peek l = Some (if rest l = [] then eof else fst (DecodeRune (rest l)),
                        l\<lparr>width := snd (DecodeRune (rest l))\<rparr>)"
  using assms by (simp add: peek_def nextRune_cursor backup_def)

lemma emit_cursor:
  assumes "cursor_ok l"
  shows "emit t l = Some (l\<lparr>trace := trace l @ [Sent \<lparr>typ' = t, val = pending l\<rparr>],
                           start := pos l\<rparr>)"
  using assms by (simp add: emit_def slice_def cursor_ok_def pending_def)

text \<open>A rune below \<open>0x80\<close> is read exactly when the next byte is that rune.\<close>

lemma first_rune_ascii:
  assumes "0 \<le> c" and "c < 0x80"
  shows "(if rest l = [] then eof else fst (DecodeRune (rest l))) = c
         \<longleftrightarrow> take 1 (rest l) = [word_of_int c]"
proof (cases "rest l")
  case Nil
  with assms show ?thesis by (simp add: eof_def)
next
  case (Cons b bs)
  show ?thesis
  proof
    assume "(if rest l = [] then eof else fst (DecodeRune (rest l))) = c"
    with Cons have c: "fst (DecodeRune (b # bs)) = c" by simp
    with assms DecodeRune_ascii [of "b # bs"] have "c = uint b" by auto
    then have "word_of_int c = b" by simp
    with Cons show "take 1 (rest l) = [word_of_int c]" by simp
  next
    assume "take 1 (rest l) = [word_of_int c]"
    with Cons have b: "b = word_of_int c" by simp
    with assms have "uint b = c" by (simp add: uint_word_of_int take_bit_eq_mod)
    with assms have "b < 0x80" by (simp add: word_less_def)
    with Cons \<open>uint b = c\<close> show "(if rest l = [] then eof else fst (DecodeRune (rest l))) = c"
      by (simp add: DecodeRune.simps(2))
  qed
qed

lemma width_ascii:
  assumes "take 1 (rest l) = [b]" and "b < 0x80"
  shows "snd (DecodeRune (rest l)) = 1"
  using assms by (cases "rest l") (simp_all add: DecodeRune.simps(2))


lemma first_rune_not_eof: "rest l \<noteq> [] \<Longrightarrow> fst (DecodeRune (rest l)) \<noteq> eof"
  using DecodeRune_nonneg [of "rest l"] by (simp add: eof_def)

lemma lexMarkdown_cursor:
  "cursor_ok l \<Longrightarrow>
   lexMarkdown l =
     Some (Some StDone,
           l\<lparr>width := 0, pos := int (length (input l)),
             trace := trace l @ [Sent \<lparr>typ' = itemMarkdown, val = drop (nat (start l)) (input l)\<rparr>],
             start := int (length (input l))\<rparr>)"
proof (induction l rule: lexMarkdown.induct)
  case (1 l)
  note ok = \<open>cursor_ok l\<close>
  let ?w = "snd (DecodeRune (rest l))"
  let ?l' = "l\<lparr>width := ?w, pos := pos l + ?w\<rparr>"
  show ?case
  proof (cases "rest l = []")
    case True
    with ok have p: "pos l = int (length (input l))" by (simp add: rest_Nil)
    with True ok show ?thesis
      by (subst lexMarkdown.simps)
         (simp add: nextRune_cursor emit_def slice_def cursor_ok_def)
  next
    case False
    from ok have n: "nextRune l = Some (fst (DecodeRune (rest l)), ?l')"
      using False by (simp add: nextRune_cursor)
    from cursor_ok_next(1) [OF ok n] have ok': "cursor_ok ?l'" .
    from "1.IH" [OF n refl _ ok'] first_rune_not_eof [OF False]
    have "lexMarkdown ?l' =
        Some (Some StDone,
           ?l'\<lparr>width := 0, pos := int (length (input ?l')),
             trace := trace ?l' @ [Sent \<lparr>typ' = itemMarkdown, val = drop (nat (start ?l')) (input ?l')\<rparr>],
             start := int (length (input ?l'))\<rparr>)"
      by simp
    with n first_rune_not_eof [OF False] show ?thesis
      by (subst lexMarkdown.simps) simp
  qed
qed

text \<open>One iteration of the loop of \<open>consumeCRLF\<close>, for an ASCII rune.\<close>

declare consumeCRLF_loop.simps(2) [simp del]

lemma consumeCRLF_loop_step:
  assumes "cursor_ok l" and "0 \<le> c" and "c < 0x80"
  shows "consumeCRLF_loop (c # cs) consumed l =
           consumeCRLF_loop cs (consumed \<or> take 1 (rest l) = [word_of_int c])
             (l\<lparr>width := snd (DecodeRune (rest l)),
               pos := pos l + (if take 1 (rest l) = [word_of_int c] then 1 else 0)\<rparr>)"
proof (cases "take 1 (rest l) = [word_of_int c]")
  case True
  with assms have b: "(word_of_int c :: byte) < 0x80"
    by (simp add: word_less_def uint_word_of_int take_bit_eq_mod)
  from True first_rune_ascii [OF assms(2,3), of l]
  have "(if rest l = [] then eof else fst (DecodeRune (rest l))) = c" by simp
  with True assms(1) width_ascii [OF True b] show ?thesis
    by (simp add: nextRune_cursor consumeCRLF_loop.simps(2))
next
  case False
  with first_rune_ascii [OF assms(2,3), of l]
  have "(if rest l = [] then eof else fst (DecodeRune (rest l))) \<noteq> c" by simp
  with False assms(1) show ?thesis
    by (simp add: nextRune_cursor backup_def consumeCRLF_loop.simps(2))
qed

text \<open>The line break that \<open>consumeCRLF\<close> recognises at the head of a byte sequence: an
  optional carriage return followed by an optional line feed, in this order.\<close>

definition crlfLength :: "byte list \<Rightarrow> nat" where
  "crlfLength bs =
     (let n = (if take 1 bs = [0x0D] then 1 else 0)
      in n + (if take 1 (drop n bs) = [0x0A] then 1 else 0))"

lemma crlfLength_le: "crlfLength bs \<le> length bs"
  by (cases bs; cases "tl bs") (auto simp: crlfLength_def)

lemma consumeCRLF_cursor:
  assumes "cursor_ok l"
  shows "\<exists>w. consumeCRLF l =
           Some (0 < crlfLength (rest l),
                 l\<lparr>width := w, pos := pos l + int (crlfLength (rest l))\<rparr>)"
proof -
  define n where "n = (if take 1 (rest l) = [0x0D] then 1 else (0::nat))"
  define l1 where "l1 = l\<lparr>width := snd (DecodeRune (rest l)), pos := pos l + int n\<rparr>"
  define m where "m = (if take 1 (rest l1) = [0x0A] then 1 else (0::nat))"
  have "n \<le> length (rest l)" by (cases "rest l") (auto simp: n_def)
  with assms length_rest [OF assms] have ok1: "cursor_ok l1"
    by (simp add: l1_def cursor_ok_def)
  from assms have r1: "rest l1 = drop n (rest l)"
    by (simp add: l1_def rest_def cursor_ok_def nat_add_distrib add.commute)
  have "consumeCRLF l = consumeCRLF_loop [0x0A] (0 < n) l1"
    using consumeCRLF_loop_step [OF assms, of "0x0D" "[0x0A]" False]
    by (simp add: consumeCRLF_def l1_def n_def)
  also have "\<dots> = Some (0 < n + m, l1\<lparr>width := snd (DecodeRune (rest l1)), pos := pos l1 + int m\<rparr>)"
    using consumeCRLF_loop_step [OF ok1, of "0x0A" "[]" "0 < n"]
    by (auto simp add: m_def)
  finally have "consumeCRLF l =
      Some (0 < n + m, l\<lparr>width := snd (DecodeRune (rest l1)), pos := pos l + int (n + m)\<rparr>)"
    by (simp add: l1_def add.assoc)
  moreover have "n + m = crlfLength (rest l)"
    by (simp add: crlfLength_def n_def m_def r1)
  ultimately show ?thesis by auto
qed

subsection \<open>The state functions on a cursor in range\<close>

lemma lexStart_cursor:
  assumes "cursor_ok l"
  shows "lexStart l =
     Some (if take 1 (rest l) = [0x2B] then Some StFrontmatterTOML
           else if take 1 (rest l) = [0x2D] then Some StFrontmatterYAML
           else if take 1 (rest l) = [0x7B] then Some StFrontmatterJSON
           else Some StMarkdown, l\<lparr>width := snd (DecodeRune (rest l))\<rparr>)"
  using first_rune_ascii [of "0x2B" l] first_rune_ascii [of "0x2D" l]
    first_rune_ascii [of "0x7B" l]
  by (simp add: lexStart_def peek_cursor [OF assms])

lemma cursor_ok_width [simp]: "cursor_ok (l\<lparr>width := w\<rparr>) = cursor_ok l"
  by (simp add: cursor_ok_def)

lemma rest_width [simp]: "rest (l\<lparr>width := w\<rparr>) = rest l"
  by (simp add: rest_def)

lemma lexDone_cursor:
  "cursor_ok l \<Longrightarrow>
   lexDone l = Some (None, l\<lparr>trace := trace l @ [Sent \<lparr>typ' = itemEOF, val = pending l\<rparr>],
                            start := pos l\<rparr>)"
  by (simp add: lexDone_def emit_cursor)


subsection \<open>What has become of the input\<close>

text \<open>The input bytes that an event accounts for: the value of an item that is neither
  an error nor the end marker, and a dropped span.\<close>

fun payload :: "event \<Rightarrow> byte list" where
  "payload (Sent i) = (if typ' i = itemError \<or> typ' i = itemEOF then [] else val i)"
| "payload (Dropped bs) = bs"

definition covered :: "event list \<Rightarrow> byte list" where
  "covered es = concat (map payload es)"

text \<open>The events so far account for the input before \<open>start\<close>, in order.\<close>

definition accounted :: "lexer \<Rightarrow> bool" where
  "accounted l = (covered (trace l) = take (nat (start l)) (input l))"

text \<open>A frontmatter item between fences is never empty.\<close>

fun fenced_nonempty :: "event \<Rightarrow> bool" where
  "fenced_nonempty (Sent i) =
     (if typ' i = itemFrontmatterTOML \<or> typ' i = itemFrontmatterYAML then val i \<noteq> [] else True)"
| "fenced_nonempty (Dropped bs) = True"

lemma covered_append [simp]: "covered (es @ fs) = covered es @ covered fs"
  by (simp add: covered_def)

lemma covered_Nil [simp]: "covered [] = []"
  by (simp add: covered_def)

lemma covered_Cons [simp]: "covered (e # es) = payload e @ covered es"
  by (simp add: covered_def)

lemma take_pending:
  "cursor_ok l \<Longrightarrow> take (nat (start l)) (input l) @ pending l = take (nat (pos l)) (input l)"
proof -
  assume "cursor_ok l"
  then have "nat (pos l) = nat (start l) + nat (pos l - start l)"
    unfolding cursor_ok_def by arith
  then show ?thesis by (simp add: pending_def take_add)
qed

lemma accounted_width [simp]: "accounted (l\<lparr>width := w\<rparr>) = accounted l"
  by (simp add: accounted_def)

lemma accounted_pos [simp]: "accounted (l\<lparr>pos := p\<rparr>) = accounted l"
  by (simp add: accounted_def)

lemma ignore_accounted:
  "cursor_ok l \<Longrightarrow> accounted l \<Longrightarrow> accounted (ignore l)"
  using take_pending [of l] by (simp add: accounted_def ignore_def)

lemma ignore_cursor: "cursor_ok l \<Longrightarrow> cursor_ok (ignore l)"
  by (simp add: cursor_ok_def ignore_def)

lemma hasPrefix_cursor: "cursor_ok l \<Longrightarrow> hasPrefix fence l = Some (HasPrefix (rest l) fence)"
  by (simp add: hasPrefix_def slice_def cursor_ok_def rest_def)

lemma lexDelimiter_cursor:
  "cursor_ok l \<Longrightarrow>
   \<exists>ok w p. lexDelimiter c n l = Some (ok, l\<lparr>width := w, pos := p\<rparr>)
            \<and> cursor_ok (l\<lparr>width := w, pos := p\<rparr>)"
proof (induction n arbitrary: l)
  case 0
  have "l = l\<lparr>width := width l, pos := pos l\<rparr>" by simp
  with 0 show ?case by (metis lexDelimiter.simps(1))
next
  case (Suc n)
  let ?l' = "l\<lparr>width := snd (DecodeRune (rest l)), pos := pos l + snd (DecodeRune (rest l))\<rparr>"
  from Suc.prems have n: "nextRune l = Some (if rest l = [] then eof else fst (DecodeRune (rest l)), ?l')"
    by (rule nextRune_cursor)
  from cursor_ok_next(1) [OF Suc.prems n] have ok': "cursor_ok ?l'" .
  from Suc.IH [OF ok'] obtain ok w p where
    "lexDelimiter c n ?l' = Some (ok, ?l'\<lparr>width := w, pos := p\<rparr>)"
    "cursor_ok (?l'\<lparr>width := w, pos := p\<rparr>)" by blast
  then have a: "lexDelimiter c n ?l' = Some (ok, l\<lparr>width := w, pos := p\<rparr>)"
    and b: "cursor_ok (l\<lparr>width := w, pos := p\<rparr>)" by simp_all
  show ?case
  proof (cases "(if rest l = [] then eof else fst (DecodeRune (rest l))) = c")
    case True
    with n a b show ?thesis by auto
  next
    case False
    with n have "lexDelimiter c (Suc n) l = Some (False, ?l')" by simp
    with ok' show ?thesis by blast
  qed
qed


lemma emit_accounted:
  assumes "cursor_ok l" and "accounted l" and "t \<noteq> itemError" and "t \<noteq> itemEOF"
  shows "accounted (l\<lparr>trace := trace l @ [Sent \<lparr>typ' = t, val = pending l\<rparr>], start := pos l\<rparr>)"
  using assms take_pending [of l] by (simp add: accounted_def)

lemma pending_nonempty: "cursor_ok l \<Longrightarrow> start l < pos l \<Longrightarrow> pending l \<noteq> []"
  by (auto simp: pending_def cursor_ok_def)

lemma HasPrefix_length: "HasPrefix s fence \<Longrightarrow> length fence \<le> length s"
  by (simp add: HasPrefix_def)

lemma lexFrontmatter_close_ready:
  assumes ok: "cursor_ok l" and acc: "accounted l"
    and fm: "list_all fenced_nonempty (trace l)"
    and hp: "HasPrefix (rest l) fence" and len: "length fence = 3"
    and ne: "start l < pos l" and t: "t \<noteq> itemError" "t \<noteq> itemEOF"
  shows "\<exists>l'. lexFrontmatter_close t l = Some (Some StMarkdown, l') \<and> input l' = input l
              \<and> cursor_ok l' \<and> accounted l' \<and> list_all fenced_nonempty (trace l')
              \<and> start l' = pos l'"
proof -
  define l1 where "l1 = l\<lparr>trace := trace l @ [Sent \<lparr>typ' = t, val = pending l\<rparr>], start := pos l\<rparr>"
  define l2 where "l2 = l1\<lparr>pos := pos l1 + 3\<rparr>"
  have e: "emit t l = Some l1" using ok by (simp add: emit_cursor l1_def)
  from hp len have "3 \<le> length (rest l)" by (auto dest: HasPrefix_length)
  with ok length_rest [OF ok] have ok2: "cursor_ok l2"
    by (simp add: l2_def l1_def cursor_ok_def)
  from emit_accounted [OF ok acc t] have acc2: "accounted l2"
    by (simp add: l2_def l1_def)
  from pending_nonempty [OF ok ne] fm have fm2: "list_all fenced_nonempty (trace l2)"
    by (simp add: l2_def l1_def)
  from consumeCRLF_cursor [OF ok2] obtain w where
    c: "consumeCRLF l2 = Some (0 < crlfLength (rest l2),
          l2\<lparr>width := w, pos := pos l2 + int (crlfLength (rest l2))\<rparr>)" by blast
  define l3 where "l3 = l2\<lparr>width := w, pos := pos l2 + int (crlfLength (rest l2))\<rparr>"
  from ok2 length_rest [OF ok2] crlfLength_le [of "rest l2"] have ok3: "cursor_ok l3"
    by (simp add: l3_def cursor_ok_def)
  from acc2 have acc3: "accounted l3" by (simp add: l3_def)
  from fm2 have fm3: "list_all fenced_nonempty (trace l3)" by (simp add: l3_def)
  have "lexFrontmatter_close t l = Some (Some StMarkdown, ignore l3)"
    using e c by (simp add: lexFrontmatter_close_def l2_def l3_def)
  moreover have "input (ignore l3) = input l"
    by (simp add: ignore_def l3_def l2_def l1_def)
  moreover have "list_all fenced_nonempty (trace (ignore l3))"
    using fm3 by (simp add: ignore_def)
  moreover have "start (ignore l3) = pos (ignore l3)" by (simp add: ignore_def)
  ultimately show ?thesis
    using ignore_cursor [OF ok3] ignore_accounted [OF ok3 acc3] by blast
qed

lemma lexFrontmatter_loop_ready:
  assumes "cursor_ok l" and "accounted l" and "list_all fenced_nonempty (trace l)"
    and "length fence = 3" and "t \<noteq> itemError" and "t \<noteq> itemEOF"
  shows "\<exists>st l'. lexFrontmatter_loop fence t msg l = Some (st, l') \<and> input l' = input l
              \<and> cursor_ok l' \<and> accounted l' \<and> list_all fenced_nonempty (trace l')
              \<and> (st = None \<and> (\<exists>es i. trace l' = es @ [Sent i] \<and> typ' i = itemError)
                  \<or> st = Some StMarkdown)"
  using assms
proof (induction fence t msg l rule: lexFrontmatter_loop.induct)
  case (1 fence t msg l)
  note ok = \<open>cursor_ok l\<close>
  let ?r = "if rest l = [] then eof else fst (DecodeRune (rest l))"
  let ?l' = "l\<lparr>width := snd (DecodeRune (rest l)), pos := pos l + snd (DecodeRune (rest l))\<rparr>"
  have n: "nextRune l = Some (?r, ?l')" using ok by (rule nextRune_cursor)
  from cursor_ok_next(1) [OF ok n] have ok': "cursor_ok ?l'" .
  from "1.prems" have acc': "accounted ?l'" and fm': "list_all fenced_nonempty (trace ?l')"
    by simp_all
  show ?case
  proof (cases "rest l = []")
    case True
    with n have "lexFrontmatter_loop fence t msg l = Some (errorf msg ?l')"
      by (subst lexFrontmatter_loop.simps) simp
    with ok' acc' fm' show ?thesis
      by (simp add: errorf_def cursor_ok_def accounted_def)
  next
    case False
    then have r: "?r \<noteq> eof" using first_rune_not_eof by simp
    from False width_bounds(3) [OF ok] ok have ne: "start ?l' < pos ?l'"
      by (simp add: cursor_ok_def)
    show ?thesis
    proof (cases "isEndOfLine ?r \<and> HasPrefix (rest ?l') fence")
      case True
      with n r ok' have "lexFrontmatter_loop fence t msg l = lexFrontmatter_close t ?l'"
        by (subst lexFrontmatter_loop.simps) (simp add: hasPrefix_cursor)
      with lexFrontmatter_close_ready [OF ok' acc' fm' _ \<open>length fence = 3\<close> ne
          \<open>t \<noteq> itemError\<close> \<open>t \<noteq> itemEOF\<close>] True
      show ?thesis by auto
    next
      case False
      with n r ok' have eq: "lexFrontmatter_loop fence t msg l = lexFrontmatter_loop fence t msg ?l'"
        by (subst lexFrontmatter_loop.simps) (auto simp: hasPrefix_cursor)
      have "\<exists>st l'. lexFrontmatter_loop fence t msg ?l' = Some (st, l') \<and> input l' = input ?l'
              \<and> cursor_ok l' \<and> accounted l' \<and> list_all fenced_nonempty (trace l')
              \<and> (st = None \<and> (\<exists>es i. trace l' = es @ [Sent i] \<and> typ' i = itemError)
                  \<or> st = Some StMarkdown)"
      proof (cases "isEndOfLine ?r")
        case True
        with False have h: "hasPrefix fence ?l' = Some False" using ok'
          by (simp add: hasPrefix_cursor)
        show ?thesis
          by (rule "1.IH"(1) [OF n refl r True h _ ok' acc' fm' "1.prems"(4,5,6)]) simp
      next
        case False
        show ?thesis
          by (rule "1.IH"(2) [OF n refl r False ok' acc' fm' "1.prems"(4,5,6)])
      qed
      with eq show ?thesis by simp
    qed
  qed
qed


text \<open>What holds of the scanner between two states of the run: the cursor is in range,
  the events account for the input before \<open>start\<close>, no fenced frontmatter item is
  empty; \<open>lexDone\<close> is entered with nothing pending at the end of the input, and the
  run ends behind an error item or behind an end marker with the whole input accounted
  for.\<close>

definition ended :: "lexer \<Rightarrow> bool" where
  "ended l =
     (case rev (trace l) of
        Sent i # es \<Rightarrow>
          typ' i = itemError \<or> typ' i = itemEOF \<and> start l = int (length (input l))
      | _ \<Rightarrow> False)"

definition ready :: "stateFunc option \<Rightarrow> lexer \<Rightarrow> bool" where
  "ready st l =
     (cursor_ok l \<and> accounted l \<and> list_all fenced_nonempty (trace l)
      \<and> (if st = Some StDone then start l = int (length (input l)) else True)
      \<and> (if st = None then ended l else True))"

lemma ended_error: "trace l = es @ [Sent i] \<Longrightarrow> typ' i = itemError \<Longrightarrow> ended l"
  by (simp add: ended_def)

lemma lexFrontmatter_ready:
  assumes "cursor_ok l" and "accounted l" and "list_all fenced_nonempty (trace l)"
    and "length fence = 3" and "t \<noteq> itemError" and "t \<noteq> itemEOF"
  shows "\<exists>st l'. lexFrontmatter c fence t invalid msg l = Some (st, l') \<and> input l' = input l
              \<and> ready st l'"
proof -
  from lexDelimiter_cursor [OF assms(1)] obtain ok w p where
    d: "lexDelimiter c 3 l = Some (ok, l\<lparr>width := w, pos := p\<rparr>)"
    and ok1: "cursor_ok (l\<lparr>width := w, pos := p\<rparr>)" by blast
  let ?l1 = "l\<lparr>width := w, pos := p\<rparr>"
  from assms have acc1: "accounted ?l1" and fm1: "list_all fenced_nonempty (trace ?l1)"
    by simp_all
  show ?thesis
  proof (cases ok)
    case False
    with d have "lexFrontmatter c fence t invalid msg l = Some (errorf invalid ?l1)"
      by (simp add: lexFrontmatter_def)
    moreover have "ready None (snd (errorf invalid ?l1))"
      using ok1 acc1 fm1
      by (simp add: ready_def errorf_def cursor_ok_def accounted_def ended_def)
    ultimately show ?thesis by (auto simp: errorf_def)
  next
    case True
    from consumeCRLF_cursor [OF ok1] obtain w' where
      c: "consumeCRLF ?l1 = Some (0 < crlfLength (rest ?l1),
            ?l1\<lparr>width := w', pos := pos ?l1 + int (crlfLength (rest ?l1))\<rparr>)" by blast
    define l2 where "l2 = ?l1\<lparr>width := w', pos := pos ?l1 + int (crlfLength (rest ?l1))\<rparr>"
    from ok1 length_rest [OF ok1] crlfLength_le [of "rest ?l1"] have ok2: "cursor_ok l2"
      by (simp add: l2_def cursor_ok_def)
    from acc1 have acc2: "accounted l2" by (simp add: l2_def)
    from fm1 have fm2: "list_all fenced_nonempty (trace l2)" by (simp add: l2_def)
    from fm2 have fm3: "list_all fenced_nonempty (trace (ignore l2))" by (simp add: ignore_def)
    have i: "input (ignore l2) = input l" by (simp add: ignore_def l2_def)
    from True d c have "lexFrontmatter c fence t invalid msg l =
        lexFrontmatter_loop fence t msg (ignore l2)"
      by (simp add: lexFrontmatter_def l2_def)
    with lexFrontmatter_loop_ready [OF ignore_cursor [OF ok2] ignore_accounted [OF ok2 acc2]
        fm3 assms(4,5,6), of msg] i
    show ?thesis by (auto simp: ready_def intro: ended_error)
  qed
qed

lemma lexJSON_switch_cursor:
  assumes "cursor_ok l"
  shows "\<exists>q' lv' w p. lexJSON_switch r q lv l = Some (q', lv', l\<lparr>width := w, pos := p\<rparr>)
           \<and> cursor_ok (l\<lparr>width := w, pos := p\<rparr>) \<and> pos l \<le> p"
proof (cases "r = 0x5C")
  case True
  let ?l' = "l\<lparr>width := snd (DecodeRune (rest l)), pos := pos l + snd (DecodeRune (rest l))\<rparr>"
  from assms have n: "nextRune l = Some (if rest l = [] then eof else fst (DecodeRune (rest l)), ?l')"
    by (rule nextRune_cursor)
  from cursor_ok_next(1) [OF assms n] have "cursor_ok ?l'" .
  moreover from True n have "lexJSON_switch r q lv l = Some (q, lv, ?l')"
    by (simp add: lexJSON_switch_def)
  moreover from width_bounds(1) [OF assms] have "pos l \<le> pos l + snd (DecodeRune (rest l))"
    by simp
  ultimately show ?thesis by blast
next
  case False
  have "l = l\<lparr>width := width l, pos := pos l\<rparr>" by simp
  then have "\<exists>w p. l = l\<lparr>width := w, pos := p\<rparr> \<and> cursor_ok (l\<lparr>width := w, pos := p\<rparr>)
     \<and> pos l \<le> p"
    using assms by (metis order_refl)
  with False show ?thesis
    by (auto simp: lexJSON_switch_def)
qed

lemma lexFrontmatterJSON_loop_cursor:
  assumes "cursor_ok l"
  shows "\<exists>res. lexFrontmatterJSON_loop q lv l = Some res \<and>
           (case res of
              Inl (st, l') \<Rightarrow>
                st = None \<and> input l' = input l \<and> start l' = start l \<and> cursor_ok l'
                \<and> trace l' = trace l @ [Sent \<lparr>typ' = itemError,
                      val = bytes ''unexpected EOF parsing JSON front matter''\<rparr>]
            | Inr l' \<Rightarrow>
                input l' = input l \<and> start l' = start l \<and> cursor_ok l' \<and> trace l' = trace l)"
  using assms
proof (induction q lv l rule: lexFrontmatterJSON_loop.induct)
  case (1 q lv l)
  note ok = \<open>cursor_ok l\<close>
  let ?r = "if rest l = [] then eof else fst (DecodeRune (rest l))"
  let ?l1 = "l\<lparr>width := snd (DecodeRune (rest l)), pos := pos l + snd (DecodeRune (rest l))\<rparr>"
  have n: "nextRune l = Some (?r, ?l1)" using ok by (rule nextRune_cursor)
  from cursor_ok_next(1) [OF ok n] have ok1: "cursor_ok ?l1" .
  show ?case
  proof (cases "rest l = []")
    case True
    with n ok1 show ?thesis
      by (subst lexFrontmatterJSON_loop.simps) (simp add: errorf_def cursor_ok_def)
  next
    case False
    then have r: "?r \<noteq> eof" using first_rune_not_eof by simp
    from lexJSON_switch_cursor [OF ok1, of ?r q lv] obtain q' lv' w p where
      sw: "lexJSON_switch ?r q lv ?l1 = Some (q', lv', ?l1\<lparr>width := w, pos := p\<rparr>)"
      and ok2: "cursor_ok (?l1\<lparr>width := w, pos := p\<rparr>)" by blast
    let ?l2 = "?l1\<lparr>width := w, pos := p\<rparr>"
    show ?thesis
    proof (cases "lv' = 0")
      case True
      with n r sw have "lexFrontmatterJSON_loop q lv l = Some (Inr ?l2)"
        by (subst lexFrontmatterJSON_loop.simps) simp
      with ok2 show ?thesis by simp
    next
      case False
      with n r sw have eq: "lexFrontmatterJSON_loop q lv l = lexFrontmatterJSON_loop q' lv' ?l2"
        by (subst lexFrontmatterJSON_loop.simps) simp
      from "1.IH" [OF n refl r sw refl refl False ok2]
      show ?thesis unfolding eq by (auto split: sum.splits)
    qed
  qed
qed

lemma lexFrontmatterJSON_ready:
  assumes "cursor_ok l" and "accounted l" and "list_all fenced_nonempty (trace l)"
  shows "\<exists>st l'. lexFrontmatterJSON l = Some (st, l') \<and> input l' = input l \<and> ready st l'"
proof -
  from lexFrontmatterJSON_loop_cursor [OF assms(1), of False 0] obtain res where
    res: "lexFrontmatterJSON_loop False 0 l = Some res"
    and p: "case res of
              Inl (st, l') \<Rightarrow>
                st = None \<and> input l' = input l \<and> start l' = start l \<and> cursor_ok l'
                \<and> trace l' = trace l @ [Sent \<lparr>typ' = itemError,
                      val = bytes ''unexpected EOF parsing JSON front matter''\<rparr>]
            | Inr l' \<Rightarrow>
                input l' = input l \<and> start l' = start l \<and> cursor_ok l' \<and> trace l' = trace l"
    by blast
  show ?thesis
  proof (cases res)
    case (Inl ret)
    obtain st l' where ret: "ret = (st, l')" by (cases ret)
    with Inl p assms have "ready st l'"
      by (simp add: ready_def accounted_def ended_def)
    with Inl ret p res show ?thesis by (simp add: lexFrontmatterJSON_def)
  next
    case (Inr l1)
    with p have i1: "input l1 = input l" and s1: "start l1 = start l" and ok1: "cursor_ok l1"
      and t1: "trace l1 = trace l" by simp_all
    from assms i1 s1 t1 have acc1: "accounted l1" by (simp add: accounted_def)
    from consumeCRLF_cursor [OF ok1] obtain w where
      c: "consumeCRLF l1 = Some (0 < crlfLength (rest l1),
            l1\<lparr>width := w, pos := pos l1 + int (crlfLength (rest l1))\<rparr>)" by blast
    define l2 where "l2 = l1\<lparr>width := w, pos := pos l1 + int (crlfLength (rest l1))\<rparr>"
    from ok1 length_rest [OF ok1] crlfLength_le [of "rest l1"] have ok2: "cursor_ok l2"
      by (simp add: l2_def cursor_ok_def)
    from acc1 have acc2: "accounted l2" by (simp add: l2_def)
    define l3 where "l3 = l2\<lparr>trace := trace l2 @ [Sent \<lparr>typ' = itemFrontmatterJSON, val = pending l2\<rparr>],
                            start := pos l2\<rparr>"
    from emit_accounted [OF ok2 acc2, of itemFrontmatterJSON] have acc3: "accounted l3"
      by (simp add: l3_def)
    from ok2 have ok3: "cursor_ok l3" by (simp add: l3_def cursor_ok_def)
    from assms(3) t1 have fm3: "list_all fenced_nonempty (trace l3)"
      by (simp add: l3_def l2_def)
    from res Inr c have "lexFrontmatterJSON l = Some (Some StMarkdown, l3)"
      by (simp add: lexFrontmatterJSON_def emit_cursor [OF ok2] l2_def [symmetric] l3_def)
    moreover have "input l3 = input l" by (simp add: l3_def l2_def i1)
    ultimately show ?thesis using ok3 acc3 fm3 by (simp add: ready_def)
  qed
qed

lemma call_ready:
  assumes "ready (Some st) l"
  shows "\<exists>st' l'. call st l = Some (st', l') \<and> input l' = input l \<and> ready st' l'"
proof -
  from assms have ok: "cursor_ok l" and acc: "accounted l"
    and fm: "list_all fenced_nonempty (trace l)"
    by (simp_all add: ready_def)
  show ?thesis
  proof (cases st)
    case StStart
    with ok acc fm show ?thesis
      by (simp add: lexStart_cursor ready_def)
  next
    case StFrontmatterTOML
    with lexFrontmatter_ready [OF ok acc fm, of "bytes ''+++''" itemFrontmatterTOML]
    show ?thesis by (simp add: lexFrontmatterTOML_def bytes_def)
  next
    case StFrontmatterYAML
    with lexFrontmatter_ready [OF ok acc fm, of "bytes ''---''" itemFrontmatterYAML]
    show ?thesis by (simp add: lexFrontmatterYAML_def bytes_def)
  next
    case StFrontmatterJSON
    with lexFrontmatterJSON_ready [OF ok acc fm] show ?thesis by simp
  next
    case StMarkdown
    from ok have "take (nat (start l)) (input l) @ drop (nat (start l)) (input l) = input l"
      by simp
    with StMarkdown ok acc fm show ?thesis
      by (simp add: lexMarkdown_cursor ready_def cursor_ok_def accounted_def)
  next
    case StDone
    with assms ok have "start l = int (length (input l))" "pos l = int (length (input l))"
      by (simp_all add: ready_def cursor_ok_def)
    with StDone ok acc fm show ?thesis
      by (simp add: lexDone_cursor ready_def cursor_ok_def accounted_def ended_def)
  qed
qed

lemma run_loop_ready:
  "ready st l \<Longrightarrow> \<exists>l'. run_loop st l = Some l' \<and> input l' = input l \<and> ready None l'"
proof (induction st l rule: run_loop.induct)
  case (1 l)
  then show ?case by (simp add: run_loop.simps)
next
  case (2 state l)
  from call_ready [OF "2.prems"] obtain st' l' where
    c: "call state l = Some (st', l')" and i: "input l' = input l" and r: "ready st' l'"
    by blast
  from "2.IH" [OF c refl r] i c show ?case by (simp add: run_loop.simps)
qed

lemma lex_ready: "\<exists>l. lex inp = Some l \<and> input l = inp \<and> ready None l"
proof -
  have "ready (Some StStart) \<lparr>input = inp, start = 0, pos = 0, width = 0, trace = []\<rparr>"
    by (simp add: ready_def cursor_ok_def accounted_def)
  from run_loop_ready [OF this] show ?thesis by (simp add: lex_def run_def)
qed

subsection \<open>A fence that is never closed\<close>



lemma rest_advance:
  "cursor_ok l \<Longrightarrow> 0 \<le> w \<Longrightarrow> rest (l\<lparr>width := v, pos := pos l + w\<rparr>) = drop (nat w) (rest l)"
  by (simp add: rest_def cursor_ok_def nat_add_distrib add.commute)









subsection \<open>The JSON block as a scan over characters\<close>

text \<open>The runes that repeated \<open>next\<close> reads from a byte sequence, each with its width.\<close>

function decodeAll :: "byte list \<Rightarrow> (rune \<times> int) list" where
  "decodeAll p =
     (if p = [] then [] else DecodeRune p # decodeAll (drop (nat (snd (DecodeRune p))) p))"
  by pat_completeness auto
termination
proof (relation "measure length", goal_cases)
  case 1
  show ?case by simp
next
  case (2 p)
  with DecodeRune_width [of p] show ?case by simp
qed

declare decodeAll.simps [simp del]

text \<open>
  The JSON-frontmatter state in the words of the specification, over characters: one
  step per character read by the loop, with the number of characters the step
  consumes and the nesting level behind it. A \<open>{\<close> outside quotes increments the
  level, a \<open>}\<close> outside quotes decrements it, a \<open>"\<close> toggles the in-quote flag, and a
  backslash consumes one more character, whatever it is and if there is one, without
  looking at it.
\<close>

fun jsonSteps :: "bool \<Rightarrow> int \<Rightarrow> rune list \<Rightarrow> (nat \<times> int) list" where
  "jsonSteps inQuote level [] = []"
| "jsonSteps inQuote level (c # cs) =
     (if c = 0x7B then
        (1, if inQuote then level else level + 1)
          # jsonSteps inQuote (if inQuote then level else level + 1) cs
      else if c = 0x7D then
        (1, if inQuote then level else level - 1)
          # jsonSteps inQuote (if inQuote then level else level - 1) cs
      else if c = 0x22 then (1, level) # jsonSteps (\<not> inQuote) level cs
      else if c = 0x5C then (1 + min 1 (length cs), level) # jsonSteps inQuote level (drop 1 cs)
      else (1, level) # jsonSteps inQuote level cs)"

text \<open>The block closes behind the first step that leaves the level at zero: the number
  of characters up to there, or \<open>None\<close> when the level never returns to zero.\<close>

fun closeAt :: "(nat \<times> int) list \<Rightarrow> nat option" where
  "closeAt [] = None"
| "closeAt ((n, level) # steps) =
     (if level = 0 then Some n else map_option ((+) n) (closeAt steps))"

definition jsonSpan :: "bool \<Rightarrow> int \<Rightarrow> rune list \<Rightarrow> nat option" where
  "jsonSpan inQuote level cs = closeAt (jsonSteps inQuote level cs)"

text \<open>The bytes that the first \<open>n\<close> runes occupy.\<close>

definition byteLen :: "nat \<Rightarrow> (rune \<times> int) list \<Rightarrow> int" where
  "byteLen n ds = sum_list (map snd (take n ds))"

lemma byteLen_add: "byteLen (k + n) ds = byteLen k ds + byteLen n (drop k ds)"
  by (simp add: byteLen_def take_add)

lemma decodeAll_Nil [simp]: "decodeAll [] = []"
  by (simp add: decodeAll.simps)

lemma decodeAll_rest:
  assumes "cursor_ok l" and "rest l \<noteq> []"
  shows "decodeAll (rest l) =
           DecodeRune (rest l)
             # decodeAll (rest (l\<lparr>width := w, pos := pos l + snd (DecodeRune (rest l))\<rparr>))"
  using assms rest_advance [OF assms(1) width_bounds(1) [OF assms(1)], of w]
  by (subst decodeAll.simps) simp


text \<open>One iteration of the loop of \<open>lexFrontmatterJSON\<close> on a rune that is not \<open>eof\<close>
  is one step of the scan over characters.\<close>

lemma lexJSON_iteration:
  assumes ok: "cursor_ok l" and ne: "rest l \<noteq> []"
  shows "\<exists>q' lv' l2 k.
           lexJSON_switch (fst (DecodeRune (rest l))) q lv
             (l\<lparr>width := snd (DecodeRune (rest l)), pos := pos l + snd (DecodeRune (rest l))\<rparr>)
             = Some (q', lv', l2)
           \<and> cursor_ok l2 \<and> input l2 = input l \<and> start l2 = start l \<and> trace l2 = trace l
           \<and> jsonSteps q lv (map fst (decodeAll (rest l)))
               = (k, lv') # jsonSteps q' lv' (map fst (decodeAll (rest l2)))
           \<and> decodeAll (rest l2) = drop k (decodeAll (rest l))
           \<and> pos l2 = pos l + byteLen k (decodeAll (rest l))"
proof -
  let ?r = "fst (DecodeRune (rest l))"
  let ?w = "snd (DecodeRune (rest l))"
  let ?l1 = "l\<lparr>width := ?w, pos := pos l + ?w\<rparr>"
  have n: "nextRune l = Some (?r, ?l1)" using ok ne by (simp add: nextRune_cursor)
  from cursor_ok_next(1) [OF ok n] have ok1: "cursor_ok ?l1" .
  have d: "decodeAll (rest l) = (?r, ?w) # decodeAll (rest ?l1)"
    using decodeAll_rest [OF ok ne, of ?w] by simp
  show ?thesis
  proof (cases "?r = 0x5C")
    case False
    then have "\<exists>q' lv'. lexJSON_switch ?r q lv ?l1 = Some (q', lv', ?l1)
        \<and> jsonSteps q lv (?r # map fst (decodeAll (rest ?l1)))
            = (1, lv') # jsonSteps q' lv' (map fst (decodeAll (rest ?l1)))"
      by (auto simp: lexJSON_switch_def)
    then obtain q' lv' where sw: "lexJSON_switch ?r q lv ?l1 = Some (q', lv', ?l1)"
      and js: "jsonSteps q lv (?r # map fst (decodeAll (rest ?l1)))
            = (1, lv') # jsonSteps q' lv' (map fst (decodeAll (rest ?l1)))" by blast
    from js have "jsonSteps q lv (map fst (decodeAll (rest l)))
            = (1, lv') # jsonSteps q' lv' (map fst (decodeAll (rest ?l1)))"
      by (simp add: d)
    moreover have "decodeAll (rest ?l1) = drop 1 (decodeAll (rest l))" by (simp add: d)
    moreover have "pos ?l1 = pos l + byteLen 1 (decodeAll (rest l))"
      by (simp add: d byteLen_def)
    moreover have "input ?l1 = input l" "start ?l1 = start l" "trace ?l1 = trace l"
      by simp_all
    ultimately show ?thesis using sw ok1 by blast
  next
    case True
    let ?w2 = "snd (DecodeRune (rest ?l1))"
    let ?l2 = "?l1\<lparr>width := ?w2, pos := pos ?l1 + ?w2\<rparr>"
    have n1: "nextRune ?l1 =
        Some (if rest ?l1 = [] then eof else fst (DecodeRune (rest ?l1)), ?l2)"
      using ok1 by (rule nextRune_cursor)
    from cursor_ok_next(1) [OF ok1 n1] have ok2: "cursor_ok ?l2" .
    from True n1 have sw: "lexJSON_switch ?r q lv ?l1 = Some (q, lv, ?l2)"
      by (simp add: lexJSON_switch_def)
    have i: "input ?l2 = input l" "start ?l2 = start l" "trace ?l2 = trace l" by simp_all
    show ?thesis
    proof (cases "rest ?l1 = []")
      case True
      then have w2: "?w2 = 0" by simp
      with True have r2: "rest ?l2 = []" by (simp add: rest_def)
      from True have r2': "rest (l\<lparr>width := 0, pos := pos l + ?w\<rparr>) = []"
        by (simp add: rest_def)
      from \<open>?r = 0x5C\<close> True
      have "jsonSteps q lv (map fst (decodeAll (rest l)))
            = (1, lv) # jsonSteps q lv (map fst (decodeAll (rest ?l2)))"
        by (simp add: d r2')
      moreover have "decodeAll (rest ?l2) = drop 1 (decodeAll (rest l))"
        using True by (simp add: d r2')
      moreover have "pos ?l2 = pos l + byteLen 1 (decodeAll (rest l))"
        using w2 by (simp add: d byteLen_def)
      ultimately show ?thesis using sw ok2 i by blast
    next
      case False
      have d1: "decodeAll (rest ?l1) = (fst (DecodeRune (rest ?l1)), ?w2) # decodeAll (rest ?l2)"
        using decodeAll_rest [OF ok1 False, of ?w2] by simp
      from \<open>?r = 0x5C\<close>
      have "jsonSteps q lv (map fst (decodeAll (rest l)))
            = (2, lv) # jsonSteps q lv (map fst (decodeAll (rest ?l2)))"
        by (simp add: d d1)
      moreover have "decodeAll (rest ?l2) = drop 2 (decodeAll (rest l))"
        by (simp add: d d1)
      moreover have "pos ?l2 = pos l + byteLen 2 (decodeAll (rest l))"
        by (simp add: d d1 byteLen_def numeral_2_eq_2)
      ultimately show ?thesis using sw ok2 i by blast
    qed
  qed
qed

lemma lexFrontmatterJSON_loop_span:
  assumes "cursor_ok l"
  shows "case jsonSpan q lv (map fst (decodeAll (rest l))) of
           None \<Rightarrow>
             \<exists>l'. lexFrontmatterJSON_loop q lv l =
                    Some (Inl (errorf ''unexpected EOF parsing JSON front matter'' l'))
                  \<and> input l' = input l \<and> start l' = start l \<and> trace l' = trace l
                  \<and> pos l' = int (length (input l))
         | Some n \<Rightarrow>
             \<exists>l'. lexFrontmatterJSON_loop q lv l = Some (Inr l')
                  \<and> input l' = input l \<and> start l' = start l \<and> trace l' = trace l
                  \<and> pos l' = pos l + byteLen n (decodeAll (rest l))"
  using assms
proof (induction q lv l rule: lexFrontmatterJSON_loop.induct)
  case (1 q lv l)
  note ok = \<open>cursor_ok l\<close>
  let ?r = "if rest l = [] then eof else fst (DecodeRune (rest l))"
  let ?l1 = "l\<lparr>width := snd (DecodeRune (rest l)), pos := pos l + snd (DecodeRune (rest l))\<rparr>"
  have n: "nextRune l = Some (?r, ?l1)" using ok by (rule nextRune_cursor)
  show ?case
  proof (cases "rest l = []")
    case True
    with ok rest_Nil [OF ok] have "pos l = int (length (input l))" by simp
    with True n show ?thesis
      by (subst lexFrontmatterJSON_loop.simps) (auto simp: jsonSpan_def)
  next
    case False
    then have r: "?r \<noteq> eof" using first_rune_not_eof by simp
    from lexJSON_iteration [OF ok False, of q lv] False obtain q' lv' l2 k where
      sw: "lexJSON_switch ?r q lv ?l1 = Some (q', lv', l2)"
      and ok2: "cursor_ok l2"
      and i2: "input l2 = input l" "start l2 = start l" "trace l2 = trace l"
      and st: "jsonSteps q lv (map fst (decodeAll (rest l)))
               = (k, lv') # jsonSteps q' lv' (map fst (decodeAll (rest l2)))"
      and dr: "decodeAll (rest l2) = drop k (decodeAll (rest l))"
      and p2: "pos l2 = pos l + byteLen k (decodeAll (rest l))"
      by auto
    show ?thesis
    proof (cases "lv' = 0")
      case True
      with n r sw have "lexFrontmatterJSON_loop q lv l = Some (Inr l2)"
        by (subst lexFrontmatterJSON_loop.simps) simp
      with True st i2 p2 show ?thesis by (simp add: jsonSpan_def)
    next
      case False
      with n r sw have eq: "lexFrontmatterJSON_loop q lv l = lexFrontmatterJSON_loop q' lv' l2"
        by (subst lexFrontmatterJSON_loop.simps) simp
      from False st have sp: "jsonSpan q lv (map fst (decodeAll (rest l)))
          = map_option ((+) k) (jsonSpan q' lv' (map fst (decodeAll (rest l2))))"
        by (simp add: jsonSpan_def)
      from "1.IH" [OF n refl r sw refl refl False ok2]
      show ?thesis unfolding eq sp
        by (cases "jsonSpan q' lv' (map fst (decodeAll (rest l2)))")
           (auto simp: i2 p2 byteLen_add dr)
    qed
  qed
qed

text \<open>In the scan over characters, a backslash and the character behind it leave the
  flag and the level as they are, whatever the character is, and so does a brace
  inside quotes.\<close>

lemma jsonSteps_escape:
  "jsonSteps inQuote level (0x5C # c # cs) = (2, level) # jsonSteps inQuote level cs"
  by simp

lemma jsonSteps_quoted_brace:
  "c = 0x7B \<or> c = 0x7D \<Longrightarrow>
   jsonSteps True level (c # cs) = (1, level) # jsonSteps True level cs"
  by auto

text \<open>The document \<open>{"a": "\"}\""}BODY\<close>: the string value holds an escaped quote, a
  closing brace and another escaped quote (a backslash cannot be written in a string
  literal here, so it is spliced in as the byte \<open>0x5C\<close>).\<close>

definition escapedQuoteDocument :: "byte list" where
  "escapedQuoteDocument =
     bytes ''{\"a\": \"'' @ [0x5C] @ bytes ''\"}'' @ [0x5C] @ bytes ''\"\"}BODY''"

section \<open>The claims\<close>

subsection \<open>Documents scanned by evaluation\<close>

text \<open>
  C1 (as amended). For the document \<open>+++\<close>, line feed, \<open>A\<close>, line feed, \<open>+++\<close>, line
  feed, \<open>BODY\<close> the scanner sends a TOML-frontmatter item, a content item with value
  \<open>BODY\<close> and the end marker, and nothing else. The value of the frontmatter item is
  \<open>A\<close> followed by the line feed that precedes the closing fence: the item is emitted
  when that line break has been read, so the opening fence, its line break, the closing
  fence and its line break are stripped, and the line break before the closing fence
  is not.
\<close>

theorem C1_toml_document:
  "scan (bytes ''+++\<newline>A\<newline>+++\<newline>BODY'') =
     Some [\<lparr>typ' = itemFrontmatterTOML, val = bytes ''A\<newline>''\<rparr>,
           \<lparr>typ' = itemMarkdown, val = bytes ''BODY''\<rparr>,
           \<lparr>typ' = itemEOF, val = []\<rparr>]"
  by code_simp

text \<open>C1 as stated fails: the value of the first item is not exactly \<open>A\<close>.\<close>

theorem C1_counterexample:
  "map_option (val \<circ> hd) (scan (bytes ''+++\<newline>A\<newline>+++\<newline>BODY'')) \<noteq> Some (bytes ''A'')"
  by code_simp

text \<open>
  C2 (as amended). For the JSON object \<open>{"a": {"b": 1}}\<close> followed by a line feed and
  \<open>BODY\<close> the scanner sends exactly one JSON-frontmatter item, a content item with
  value \<open>BODY\<close> and the end marker. The value of the frontmatter item is the
  balanced-brace span, braces included, followed by the line feed behind it: the
  trailing line break is consumed before the item is emitted and is not dropped.
\<close>

theorem C2_json_document:
  "scan (bytes ''{\"a\": {\"b\": 1}}\<newline>BODY'') =
     Some [\<lparr>typ' = itemFrontmatterJSON, val = bytes ''{\"a\": {\"b\": 1}}\<newline>''\<rparr>,
           \<lparr>typ' = itemMarkdown, val = bytes ''BODY''\<rparr>,
           \<lparr>typ' = itemEOF, val = []\<rparr>]"
  by code_simp

text \<open>C2 as stated fails: the value of the first item is not the span without the
  line break.\<close>

theorem C2_counterexample:
  "map_option (val \<circ> hd) (scan (bytes ''{\"a\": {\"b\": 1}}\<newline>BODY''))
     \<noteq> Some (bytes ''{\"a\": {\"b\": 1}}'')"
  by code_simp

text \<open>
  C5. For the input \<open>+++\<close>, line feed, \<open>A\<close>, whose closing fence is never found, the
  scanner sends exactly one item, an error item with the message
  \<open>EOF looking for end TOML front matter delimiter\<close>; the channel is closed behind
  it, so no end marker follows.
\<close>

theorem C5_unclosed_toml:
  "scan (bytes ''+++\<newline>A'') =
     Some [\<lparr>typ' = itemError,
            val = bytes ''EOF looking for end TOML front matter delimiter''\<rparr>]"
  by code_simp

subsection \<open>Documents without frontmatter\<close>

text \<open>
  C4. For every input, the empty one included, whose first byte is none of \<open>+\<close>, \<open>-\<close>
  and \<open>{\<close> (an ASCII character is its own UTF-8 encoding, so this is the first
  character), the scanner sends exactly one content item whose value is the whole
  input and then the end marker: no frontmatter item and no error item.
\<close>

theorem C4_no_frontmatter:
  assumes "inp = [] \<or> hd inp \<notin> {0x2B, 0x2D, 0x7B}"
  shows "scan inp = Some [\<lparr>typ' = itemMarkdown, val = inp\<rparr>, \<lparr>typ' = itemEOF, val = []\<rparr>]"
proof -
  let ?l = "\<lparr>input = inp, start = 0, pos = 0, width = 0, trace = []\<rparr>"
  have ok: "cursor_ok ?l" by (simp add: cursor_ok_def)
  have r: "rest ?l = inp" by (simp add: rest_def)
  from assms have "take 1 inp \<noteq> [0x2B]" "take 1 inp \<noteq> [0x2D]" "take 1 inp \<noteq> [0x7B]"
    by (cases inp; auto)+
  with ok r have 1: "lexStart ?l = Some (Some StMarkdown, ?l\<lparr>width := snd (DecodeRune inp)\<rparr>)"
    by (simp add: lexStart_cursor)
  show ?thesis
    by (simp add: scan_def lex_def run_def run_loop.simps 1 lexMarkdown_cursor cursor_ok_def
          lexDone_cursor pending_def items_def)
qed

text \<open>C4 at a document that starts with a heading.\<close>

theorem C4_no_frontmatter_witness:
  "(bytes ''# Title'' = [] \<or> hd (bytes ''# Title'') \<notin> {0x2B, 0x2D, 0x7B})
   \<and> scan (bytes ''# Title'') =
       Some [\<lparr>typ' = itemMarkdown, val = bytes ''# Title''\<rparr>, \<lparr>typ' = itemEOF, val = []\<rparr>]"
proof -
  have h: "bytes ''# Title'' = [] \<or> hd (bytes ''# Title'') \<notin> {0x2B, 0x2D, 0x7B}"
    by (simp add: bytes_def)
  from h C4_no_frontmatter [OF h] show ?thesis by simp
qed

subsection \<open>Every run\<close>

lemma sent_append: "sent (es @ fs) = sent es @ sent fs"
  by (induction es rule: sent.induct) simp_all

lemma ended_items:
  assumes "ended l"
  shows "items l \<noteq> []"
    and "typ' (last (items l)) = itemEOF \<or> typ' (last (items l)) = itemError"
    and "typ' (last (items l)) = itemEOF \<Longrightarrow> start l = int (length (input l))"
proof -
  from assms obtain i es where r: "rev (trace l) = Sent i # es"
    and t: "typ' i = itemError \<or> typ' i = itemEOF \<and> start l = int (length (input l))"
    by (auto simp: ended_def split: list.splits event.splits)
  from r have "trace l = rev es @ [Sent i]" by (simp add: rev_swap)
  then have "items l = sent (rev es) @ [i]" by (simp add: items_def sent_append)
  with t show "items l \<noteq> []"
    and "typ' (last (items l)) = itemEOF \<or> typ' (last (items l)) = itemError"
    and "typ' (last (items l)) = itemEOF \<Longrightarrow> start l = int (length (input l))"
    by auto
qed

text \<open>
  C7. For every input the run of the scanner returns: no loop runs forever (each of
  them reads one more rune or exits, which is what the termination proofs of
  \<open>lexFrontmatter_loop\<close>, \<open>lexFrontmatterJSON_loop\<close>, \<open>lexMarkdown\<close> and
  \<open>run_loop\<close> rest on) and no slice is out of range. The items sent are a non-empty
  finite sequence whose last item is the end marker or an error item.
\<close>

theorem C7_run_terminates:
  "\<exists>its. scan inp = Some its \<and> its \<noteq> []
         \<and> (typ' (last its) = itemEOF \<or> typ' (last its) = itemError)"
proof -
  from lex_ready [of inp] obtain l where l: "lex inp = Some l" and r: "ready None l"
    by blast
  from r have "ended l" by (simp add: ready_def)
  from ended_items(1,2) [OF this] l show ?thesis by (simp add: scan_def)
qed




subsection \<open>The primitive operations\<close>

text \<open>
  C8. The invariant \<open>0 \<le> start \<le> pos \<le> len(input)\<close> holds of the scanner that
  \<open>lex\<close> builds, and each primitive operation keeps it: \<open>next\<close>, \<open>backup\<close> behind a
  \<open>next\<close> (the only way the state machine uses it), \<open>peek\<close>, \<open>ignore\<close>, \<open>emit\<close>,
  the advance \<open>pos += 3\<close> behind a successful \<open>hasPrefix\<close> of a fence and the
  \<open>emit\<close> that follows it, and \<open>consumeCRLF\<close>; none of them panics. The state
  functions are compositions of these operations, and the scanner at the end of every
  run satisfies the invariant. Behind \<open>emit\<close>, \<open>start\<close> equals \<open>pos\<close>.
\<close>

theorem C8_cursor_invariant:
  assumes "cursor_ok l"
  shows "(\<exists>r l'. nextRune l = Some (r, l') \<and> cursor_ok l' \<and> cursor_ok (backup l'))
       \<and> (\<exists>r l'. peek l = Some (r, l') \<and> cursor_ok l')
       \<and> cursor_ok (ignore l)
       \<and> (\<exists>l'. emit t l = Some l' \<and> cursor_ok l' \<and> start l' = pos l')
       \<and> (hasPrefix fence l = Some True \<and> length fence = 3 \<longrightarrow>
            (\<exists>l'. emit t l = Some l' \<and> cursor_ok (l'\<lparr>pos := pos l' + 3\<rparr>)))
       \<and> (\<exists>c l'. consumeCRLF l = Some (c, l') \<and> cursor_ok l')
       \<and> cursor_ok \<lparr>input = inp, start = 0, pos = 0, width = 0, trace = []\<rparr>
       \<and> (\<exists>l'. lex inp = Some l' \<and> cursor_ok l')"
proof -
  let ?r = "if rest l = [] then eof else fst (DecodeRune (rest l))"
  let ?l' = "l\<lparr>width := snd (DecodeRune (rest l)), pos := pos l + snd (DecodeRune (rest l))\<rparr>"
  have n: "nextRune l = Some (?r, ?l')" using assms by (rule nextRune_cursor)
  from cursor_ok_next(1,2) [OF assms n] n
  have 1: "\<exists>r l'. nextRune l = Some (r, l') \<and> cursor_ok l' \<and> cursor_ok (backup l')"
    by blast
  from assms have 2: "\<exists>r l'. peek l = Some (r, l') \<and> cursor_ok l'"
    by (simp add: peek_cursor)
  from assms have 3: "cursor_ok (ignore l)" by (rule ignore_cursor)
  from assms have 4: "\<exists>l'. emit t l = Some l' \<and> cursor_ok l' \<and> start l' = pos l'"
    by (simp add: emit_cursor cursor_ok_def)
  have 5: "hasPrefix fence l = Some True \<and> length fence = 3 \<longrightarrow>
            (\<exists>l'. emit t l = Some l' \<and> cursor_ok (l'\<lparr>pos := pos l' + 3\<rparr>))"
  proof
    assume h: "hasPrefix fence l = Some True \<and> length fence = 3"
    with assms have "HasPrefix (rest l) fence" by (simp add: hasPrefix_cursor)
    with h have "3 \<le> length (rest l)" by (auto dest: HasPrefix_length)
    with assms length_rest [OF assms]
    show "\<exists>l'. emit t l = Some l' \<and> cursor_ok (l'\<lparr>pos := pos l' + 3\<rparr>)"
      by (simp add: emit_cursor cursor_ok_def)
  qed
  from consumeCRLF_cursor [OF assms] obtain w where
    c: "consumeCRLF l = Some (0 < crlfLength (rest l),
          l\<lparr>width := w, pos := pos l + int (crlfLength (rest l))\<rparr>)" by blast
  from assms length_rest [OF assms] crlfLength_le [of "rest l"]
  have "cursor_ok (l\<lparr>width := w, pos := pos l + int (crlfLength (rest l))\<rparr>)"
    by (simp add: cursor_ok_def)
  with c have 6: "\<exists>c l'. consumeCRLF l = Some (c, l') \<and> cursor_ok l'" by blast
  have 7: "cursor_ok \<lparr>input = inp, start = 0, pos = 0, width = 0, trace = []\<rparr>"
    by (simp add: cursor_ok_def)
  from lex_ready [of inp] have 8: "\<exists>l'. lex inp = Some l' \<and> cursor_ok l'"
    by (auto simp: ready_def)
  from 1 2 3 4 5 6 7 8 show ?thesis by blast
qed

text \<open>C8 at the scanner that \<open>lex\<close> builds for the input \<open>+++\<close>, where
  \<open>hasPrefix\<close> finds the fence.\<close>

theorem C8_cursor_invariant_witness:
  "cursor_ok \<lparr>input = bytes ''+++'', start = 0, pos = 0, width = 0, trace = []\<rparr>
   \<and> hasPrefix (bytes ''+++'') \<lparr>input = bytes ''+++'', start = 0, pos = 0, width = 0, trace = []\<rparr>
       = Some True
   \<and> length (bytes ''+++'') = 3
   \<and> (\<exists>l'. emit itemFrontmatterTOML
              \<lparr>input = bytes ''+++'', start = 0, pos = 0, width = 0, trace = []\<rparr> = Some l'
            \<and> cursor_ok (l'\<lparr>pos := pos l' + 3\<rparr>))
   \<and> (\<exists>r l'. nextRune \<lparr>input = bytes ''+++'', start = 0, pos = 0, width = 0, trace = []\<rparr>
                = Some (r, l')
              \<and> cursor_ok l' \<and> cursor_ok (backup l'))
   \<and> (\<exists>l'. lex (bytes ''+++'') = Some l' \<and> cursor_ok l')"
proof -
  let ?l = "\<lparr>input = bytes ''+++'', start = 0, pos = 0, width = 0, trace = []\<rparr>"
  have h: "cursor_ok ?l" by (simp add: cursor_ok_def)
  have p: "hasPrefix (bytes ''+++'') ?l = Some True" by code_simp
  have n: "length (bytes ''+++'') = 3" by (simp add: bytes_def)
  from C8_cursor_invariant [OF h, of itemFrontmatterTOML "bytes ''+++''" "bytes ''+++''"] h p n
  show ?thesis by blast
qed

text \<open>
  C9 (as amended). \<open>consumeCRLF\<close> tries a carriage return and then a line feed, each
  once and in this order. On a scanner whose cursor is in range it consumes the line
  break at the read position that consists of an optional carriage return followed by
  an optional line feed (\<open>crlfLength\<close> bytes: a carriage return, a line feed, or a
  carriage return and a line feed), returns whether it consumed anything, and changes
  nothing else but \<open>width\<close>. When the next byte is neither of the two it consumes
  nothing and returns false. Of a line feed followed by a carriage return it consumes
  the line feed only.
\<close>

theorem C9_consumeCRLF:
  assumes "cursor_ok l"
  shows "\<exists>l'. consumeCRLF l = Some (0 < crlfLength (rest l), l')
             \<and> pos l' = pos l + int (crlfLength (rest l))
             \<and> input l' = input l \<and> start l' = start l \<and> trace l' = trace l"
proof -
  from consumeCRLF_cursor [OF assms] obtain w where
    "consumeCRLF l = Some (0 < crlfLength (rest l),
          l\<lparr>width := w, pos := pos l + int (crlfLength (rest l))\<rparr>)" by blast
  then show ?thesis by simp
qed

text \<open>C9 at a carriage return and a line feed followed by \<open>A\<close>.\<close>

theorem C9_consumeCRLF_witness:
  "cursor_ok \<lparr>input = [0x0D, 0x0A, 0x41], start = 0, pos = 0, width = 0, trace = []\<rparr>
   \<and> map_option fst (consumeCRLF \<lparr>input = [0x0D, 0x0A, 0x41], start = 0, pos = 0, width = 0, trace = []\<rparr>)
       = Some True
   \<and> map_option (pos \<circ> snd)
        (consumeCRLF \<lparr>input = [0x0D, 0x0A, 0x41], start = 0, pos = 0, width = 0, trace = []\<rparr>)
       = Some 2"
proof -
  let ?l = "\<lparr>input = [0x0D, 0x0A, 0x41], start = 0, pos = 0, width = 0, trace = []\<rparr>"
  have h: "cursor_ok ?l" by (simp add: cursor_ok_def)
  have c: "crlfLength (rest ?l) = 2" by (simp add: crlfLength_def rest_def)
  from C9_consumeCRLF [OF h] c h show ?thesis by auto
qed

text \<open>C9 as stated fails: of a line feed followed by a carriage return only one byte
  is consumed.\<close>

theorem C9_counterexample:
  "map_option (pos \<circ> snd)
     (consumeCRLF \<lparr>input = [0x0A, 0x0D], start = 0, pos = 0, width = 0, trace = []\<rparr>) = Some 1"
  by code_simp

subsection \<open>An empty frontmatter body\<close>




subsection \<open>The JSON frontmatter state\<close>

text \<open>
  C6. On a scanner whose cursor is in range, the loop of the JSON-frontmatter state
  does what the scan over the characters of the remaining input says (\<open>jsonSteps\<close>
  and \<open>closeAt\<close>, written from the specification): a backslash consumes the
  character behind it without looking at it, so that an escaped quote does not toggle
  the in-quote flag; braces inside quotes leave the level as it is; and the loop is
  left by \<open>break\<close> behind the first character after which the level, which counts
  the braces outside quotes, is zero, with the read position behind the bytes of the
  characters up to there. When the level never returns to zero the loop reads to the
  end of the input and the state ends with the error item. Nothing else of the
  scanner changes in the loop.
\<close>

theorem C6_json_block:
  assumes "cursor_ok l"
  shows "case jsonSpan inQuote level (map fst (decodeAll (rest l))) of
           None \<Rightarrow>
             \<exists>l'. lexFrontmatterJSON_loop inQuote level l =
                    Some (Inl (errorf ''unexpected EOF parsing JSON front matter'' l'))
                  \<and> input l' = input l \<and> start l' = start l \<and> trace l' = trace l
                  \<and> pos l' = int (length (input l))
         | Some n \<Rightarrow>
             \<exists>l'. lexFrontmatterJSON_loop inQuote level l = Some (Inr l')
                  \<and> input l' = input l \<and> start l' = start l \<and> trace l' = trace l
                  \<and> pos l' = pos l + byteLen n (decodeAll (rest l))"
  using assms by (rule lexFrontmatterJSON_loop_span)

text \<open>C6 at the document with an escaped quote around a brace inside a string: the
  block closes behind its fourteenth character, the brace that matches the first.\<close>

theorem C6_json_block_witness:
  "cursor_ok \<lparr>input = escapedQuoteDocument, start = 0, pos = 0, width = 0, trace = []\<rparr>
   \<and> jsonSpan False 0 (map fst (decodeAll escapedQuoteDocument)) = Some 14
   \<and> (\<exists>l'. lexFrontmatterJSON_loop False 0
              \<lparr>input = escapedQuoteDocument, start = 0, pos = 0, width = 0, trace = []\<rparr>
             = Some (Inr l')
           \<and> pos l' = 14)
   \<and> scan escapedQuoteDocument =
       Some [\<lparr>typ' = itemFrontmatterJSON, val = take 14 escapedQuoteDocument\<rparr>,
             \<lparr>typ' = itemMarkdown, val = bytes ''BODY''\<rparr>,
             \<lparr>typ' = itemEOF, val = []\<rparr>]"
proof -
  let ?x = "escapedQuoteDocument"
  let ?l = "\<lparr>input = ?x, start = 0, pos = 0, width = 0, trace = []\<rparr>"
  have h: "cursor_ok ?l" by (simp add: cursor_ok_def)
  have r: "rest ?l = ?x" by (simp add: rest_def)
  have s: "jsonSpan False 0 (map fst (decodeAll ?x)) = Some 14" by code_simp
  have b: "byteLen 14 (decodeAll ?x) = 14" by code_simp
  have sc: "scan ?x =
       Some [\<lparr>typ' = itemFrontmatterJSON, val = take 14 ?x\<rparr>,
             \<lparr>typ' = itemMarkdown, val = bytes ''BODY''\<rparr>,
             \<lparr>typ' = itemEOF, val = []\<rparr>]" by code_simp
  from C6_json_block [OF h, of False 0] h s b sc show ?thesis
    unfolding r by auto
qed

end
